theory Spec2Isabelle
  imports Complex_Main "HOL-Library.Word"
begin

section \<open>Python values and errors\<close>

text \<open>
  The exceptions the encoder of \<^verbatim>\<open>controller.py\<close> can raise: \<^verbatim>\<open>int.to_bytes\<close> raises
  OverflowError for a value that does not fit, a list index out of range raises IndexError,
  and \<^verbatim>\<open>dev.write\<close> raises USBError when the transport refuses a packet.
\<close>

datatype error = OverflowError | IndexError | USBError

type_synonym byte = "8 word"

text \<open>
  Python's slice bounds: a negative bound counts from the end, and every bound is clipped
  to the list. \<^verbatim>\<open>xs[a:b]\<close> is empty when the clipped lower bound is not below the upper one.
\<close>

definition slice_bound :: "nat \<Rightarrow> int \<Rightarrow> nat" where
  "slice_bound n i = (if i < 0 then nat (max 0 (i + int n)) else min (nat i) n)"

definition py_slice :: "'a list \<Rightarrow> int \<Rightarrow> int \<Rightarrow> 'a list" where
  "py_slice xs a b =
     (let lo = slice_bound (length xs) a; hi = slice_bound (length xs) b
      in take (hi - lo) (drop lo xs))"

text \<open>Python's \<^verbatim>\<open>xs[i]\<close>: a negative index counts from the end, out of range raises.\<close>

definition py_index :: "'a list \<Rightarrow> int \<Rightarrow> error + 'a" where
  "py_index xs i =
     (let n = int (length xs); j = (if i < 0 then i + n else i)
      in if 0 \<le> j \<and> j < n then Inr (xs ! nat j) else Inl IndexError)"

text \<open>Python's \<^verbatim>\<open>xs[i] = v\<close>, with the same index rule.\<close>

definition py_store :: "'a list \<Rightarrow> int \<Rightarrow> 'a \<Rightarrow> error + 'a list" where
  "py_store xs i v =
     (let n = int (length xs); j = (if i < 0 then i + n else i)
      in if 0 \<le> j \<and> j < n then Inr (xs[nat j := v]) else Inl IndexError)"

text \<open>
  \<^verbatim>\<open>(i).to_bytes(length, byteorder='big')\<close>: the unsigned big-endian bytes of \<open>i\<close>, or
  OverflowError when \<open>i\<close> is negative or needs more than \<open>length\<close> bytes.
\<close>

fun be_bytes :: "nat \<Rightarrow> nat \<Rightarrow> byte list" where
  "be_bytes 0 v = []"
| "be_bytes (Suc n) v = be_bytes n (v div 256) @ [of_nat (v mod 256)]"

definition to_bytes :: "int \<Rightarrow> nat \<Rightarrow> error + byte list" where
  "to_bytes i len =
     (if 0 \<le> i \<and> i < 256 ^ len then Inr (be_bytes len (nat i)) else Inl OverflowError)"

text \<open>The loop \<^verbatim>\<open>for i in data_array: tmp += (i).to_bytes(1, byteorder='big')\<close>.\<close>

fun append_bytes :: "byte list \<Rightarrow> int list \<Rightarrow> error + byte list" where
  "append_bytes tmp [] = Inr tmp"
| "append_bytes tmp (i # data_array) =
     (case to_bytes i 1 of
        Inl e \<Rightarrow> Inl e
      | Inr b \<Rightarrow> append_bytes (tmp @ b) data_array)"

section \<open>The USB device\<close>

text \<open>
  The module-level handle \<^verbatim>\<open>dev\<close>. Its state is the list of writes it has accepted, each an
  endpoint and a payload, oldest first. Whether the transport accepts its \<open>k\<close>-th write is
  the environment's choice, \<open>healthy k\<close>; a refused write raises USBError and leaves the
  device as it was.
\<close>

record usb_device =
  written :: "(nat \<times> byte list) list"
  healthy :: "nat \<Rightarrow> bool"

definition dev_write :: "usb_device \<Rightarrow> nat \<Rightarrow> byte list \<Rightarrow> error + usb_device" where
  "dev_write dev ep payload =
     (if healthy dev (length (written dev))
      then Inr (dev\<lparr>written := written dev @ [(ep, payload)]\<rparr>)
      else Inl USBError)"

section \<open>The controller\<close>

record DMX_controller =
  update_rate_ms :: int
  frame :: "int list"
  prev_frame :: "int list"

definition init :: "int \<Rightarrow> DMX_controller" where
  "init rate = \<lparr>update_rate_ms = rate, frame = replicate 512 0, prev_frame = replicate 512 0\<rparr>"

text \<open>\<^verbatim>\<open>self.frame[channel-1] = value\<close>.\<close>

definition set_channel :: "DMX_controller \<Rightarrow> int \<Rightarrow> int \<Rightarrow> error + DMX_controller" where
  "set_channel self channel v =
     (case py_store (frame self) (channel - 1) v of
        Inl e \<Rightarrow> Inl e
      | Inr fr \<Rightarrow> Inr (self\<lparr>frame := fr\<rparr>))"

text \<open>
  \<^verbatim>\<open>zeros_after_packet\<close>: the for loop with its \<^verbatim>\<open>break\<close> is \<open>count_zeros\<close>, run over the
  slice \<^verbatim>\<open>data[start:505]\<close>.
\<close>

fun count_zeros :: "int list \<Rightarrow> int \<Rightarrow> int" where
  "count_zeros [] cnt = cnt"
| "count_zeros (i # rest) cnt = (if i = 0 then count_zeros rest (cnt + 1) else cnt)"

definition zeros_after_packet :: "int list \<Rightarrow> int \<Rightarrow> int" where
  "zeros_after_packet data start =
     (let cnt = count_zeros (py_slice data start 505) 0
      in if cnt < 255 then cnt else 254)"

text \<open>The four packet writers. Each builds \<^verbatim>\<open>tmp\<close> and ends with \<^verbatim>\<open>dev.write(1,tmp)\<close>.\<close>

definition send_start :: "usb_device \<Rightarrow> int \<Rightarrow> int list \<Rightarrow> error + usb_device" where
  "send_start dev skip data_array =
     (case to_bytes 4 1 of
        Inl e \<Rightarrow> Inl e
      | Inr tmp \<Rightarrow>
          (case to_bytes (skip + 1) 1 of
             Inl e \<Rightarrow> Inl e
           | Inr b \<Rightarrow>
               (case append_bytes (tmp @ b) data_array of
                  Inl e \<Rightarrow> Inl e
                | Inr tmp' \<Rightarrow> dev_write dev 1 tmp')))"

definition send_data :: "usb_device \<Rightarrow> int list \<Rightarrow> error + usb_device" where
  "send_data dev data_array =
     (case to_bytes 2 1 of
        Inl e \<Rightarrow> Inl e
      | Inr tmp \<Rightarrow>
          (case append_bytes tmp data_array of
             Inl e \<Rightarrow> Inl e
           | Inr tmp' \<Rightarrow> dev_write dev 1 tmp'))"

definition send_single :: "usb_device \<Rightarrow> int \<Rightarrow> error + usb_device" where
  "send_single dev data =
     (case to_bytes 3 1 of
        Inl e \<Rightarrow> Inl e
      | Inr tmp \<Rightarrow>
          (case to_bytes data 1 of
             Inl e \<Rightarrow> Inl e
           | Inr b \<Rightarrow>
               (case to_bytes 0 6 of
                  Inl e \<Rightarrow> Inl e
                | Inr z \<Rightarrow> dev_write dev 1 (tmp @ b @ z))))"

definition send_data_skip :: "usb_device \<Rightarrow> int \<Rightarrow> int list \<Rightarrow> error + usb_device" where
  "send_data_skip dev skip data_array =
     (case to_bytes 5 1 of
        Inl e \<Rightarrow> Inl e
      | Inr tmp \<Rightarrow>
          (case to_bytes skip 1 of
             Inl e \<Rightarrow> Inl e
           | Inr b \<Rightarrow>
               (case append_bytes (tmp @ b) data_array of
                  Inl e \<Rightarrow> Inl e
                | Inr tmp' \<Rightarrow> dev_write dev 1 tmp')))"

text \<open>
  One pass of the body of the while loop of \<^verbatim>\<open>make_frame\<close>, entered with \<open>cnt < 511\<close>: the
  device after the packet and the new cursor, or the exception raised. \<open>Break\<close> is the
  branch \<^verbatim>\<open>elif cnt > 511: break\<close>. The \<^verbatim>\<open>print\<close> calls write to standard output only and
  are left out.
\<close>

datatype flow = Continue | Break

definition make_frame_body ::
  "DMX_controller \<Rightarrow> usb_device \<Rightarrow> int \<Rightarrow> error + (usb_device \<times> int \<times> flow)" where
  "make_frame_body self dev cnt =
     (let tmp = frame self; zeros = zeros_after_packet tmp cnt in
      if cnt = 0 then
        (case send_start dev zeros (py_slice (frame self) zeros (zeros + 6)) of
           Inl e \<Rightarrow> Inl e
         | Inr dev' \<Rightarrow> Inr (dev', 6 + zeros, Continue))
      else if cnt > 511 then Inr (dev, cnt, Break)
      else if cnt > 504 then
        (if 512 - cnt = 7 then
           (case send_data dev (py_slice (frame self) cnt (cnt + 7)) of
              Inl e \<Rightarrow> Inl e
            | Inr dev' \<Rightarrow> Inr (dev', cnt + 7, Continue))
         else
           (case py_index (frame self) cnt of
              Inl e \<Rightarrow> Inl e
            | Inr v \<Rightarrow>
                (case send_single dev v of
                   Inl e \<Rightarrow> Inl e
                 | Inr dev' \<Rightarrow> Inr (dev', cnt + 1, Continue))))
      else if zeros > 0 then
        (case send_data_skip dev zeros
                (py_slice (frame self) (cnt + zeros) (cnt + zeros + 6)) of
           Inl e \<Rightarrow> Inl e
         | Inr dev' \<Rightarrow> Inr (dev', cnt + zeros + 6, Continue))
      else
        (case send_data dev (py_slice (frame self) cnt (cnt + 7)) of
           Inl e \<Rightarrow> Inl e
         | Inr dev' \<Rightarrow> Inr (dev', cnt + 7, Continue)))"

lemma count_zeros_ge: "cnt \<le> count_zeros xs cnt"
proof (induction xs arbitrary: cnt)
  case Nil
  show ?case by simp
next
  case (Cons x xs)
  have "cnt + 1 \<le> count_zeros xs (cnt + 1)" by (rule Cons.IH)
  then show ?case by simp
qed

lemma zeros_after_packet_nonneg: "0 \<le> zeros_after_packet data start"
  using count_zeros_ge [of 0 "py_slice data start 505"]
  by (simp add: zeros_after_packet_def Let_def)

lemma make_frame_body_advances:
  assumes "make_frame_body self dev cnt = Inr (dev', cnt', Continue)"
  shows "cnt + 1 \<le> cnt'"
  using assms zeros_after_packet_nonneg [of "frame self" cnt]
  by (auto simp: make_frame_body_def Let_def split: if_splits sum.splits)

text \<open>
  The while loop of \<^verbatim>\<open>make_frame\<close>. It yields the controller and the device as the loop
  leaves them, and either the exception that ended it or the cursor \<open>cnt\<close> it stopped at.
\<close>

function make_frame_loop ::
  "DMX_controller \<Rightarrow> usb_device \<Rightarrow> int \<Rightarrow> DMX_controller \<times> usb_device \<times> (error + int)" where
  "make_frame_loop self dev cnt =
     (if cnt < 511 then
        (case make_frame_body self dev cnt of
           Inl e \<Rightarrow> (self, dev, Inl e)
         | Inr (dev', cnt', Continue) \<Rightarrow> make_frame_loop self dev' cnt'
         | Inr (dev', cnt', Break) \<Rightarrow> (self, dev', Inr cnt'))
      else (self, dev, Inr cnt))"
  by pat_completeness auto
termination
proof (relation "measure (\<lambda>(self, dev, cnt). nat (511 - cnt))")
  show "wf (measure (\<lambda>(self, dev, cnt). nat (511 - cnt)))" by simp
next
  fix self :: DMX_controller and dev dev' :: usb_device and cnt cnt' :: int
    and x2 :: "usb_device \<times> int \<times> flow" and y :: "int \<times> flow" and fl :: flow
  assume lt: "cnt < 511"
    and body: "make_frame_body self dev cnt = Inr x2"
    and x2: "(dev', y) = x2" and y: "(cnt', fl) = y" and fl: "fl = Continue"
  from body x2 y fl have "make_frame_body self dev cnt = Inr (dev', cnt', Continue)" by auto
  then have "cnt + 1 \<le> cnt'" by (rule make_frame_body_advances)
  with lt show "((self, dev', cnt'), (self, dev, cnt)) \<in> measure (\<lambda>(self, dev, cnt). nat (511 - cnt))"
    by simp
qed

definition make_frame ::
  "DMX_controller \<Rightarrow> usb_device \<Rightarrow> DMX_controller \<times> usb_device \<times> (error + int)" where
  "make_frame self dev = make_frame_loop self dev 0"

declare make_frame_loop.simps [simp del]

section \<open>Facts about the Python helpers\<close>

lemma to_bytes_one:
  "0 \<le> v \<Longrightarrow> v < 256 \<Longrightarrow> to_bytes v (Suc 0) = Inr [word_of_int v]"
  by (simp add: to_bytes_def)

lemma to_bytes_one_length: "to_bytes v (Suc 0) = Inr bs \<Longrightarrow> length bs = Suc 0"
  by (auto simp: to_bytes_def split: if_splits)

lemma be_bytes_six: "be_bytes 6 0 = [0, 0, 0, 0, 0, 0]"
  by code_simp

lemma to_bytes_zero_six: "to_bytes 0 6 = Inr [0, 0, 0, 0, 0, 0]"
  by (simp add: to_bytes_def be_bytes_six)

lemma uint_byte: "0 \<le> v \<Longrightarrow> v < 256 \<Longrightarrow> uint (word_of_int v :: byte) = v"
  by (simp add: uint_word_of_int)

lemma unat_byte: "0 \<le> v \<Longrightarrow> v < 256 \<Longrightarrow> unat (word_of_int v :: byte) = nat v"
  using uint_byte [of v] by (simp add: unat_eq_nat_uint del: uint_word_of_int)

lemma append_bytes_length:
  "append_bytes tmp vs = Inr bs \<Longrightarrow> length bs = length tmp + length vs"
proof (induction vs arbitrary: tmp)
  case Nil
  then show ?case by simp
next
  case (Cons v vs)
  then show ?case
    by (auto split: sum.splits dest: to_bytes_one_length)
qed

lemma append_bytes_ok:
  "\<forall>v\<in>set vs. 0 \<le> v \<and> v < 256 \<Longrightarrow> append_bytes tmp vs = Inr (tmp @ map word_of_int vs)"
proof (induction vs arbitrary: tmp)
  case Nil
  then show ?case by simp
next
  case (Cons v vs)
  then show ?case by (simp add: to_bytes_one)
qed

lemma py_slice_nat:
  assumes "0 \<le> a" "a \<le> b" "b \<le> int (length xs)"
  shows "py_slice xs a b = take (nat (b - a)) (drop (nat a) xs)"
proof -
  have lo: "slice_bound (length xs) a = nat a"
    using assms by (simp add: slice_bound_def)
  have hi: "slice_bound (length xs) b = nat b"
    using assms by (simp add: slice_bound_def)
  have "nat b - nat a = nat (b - a)" using assms by simp
  then show ?thesis by (simp add: py_slice_def lo hi)
qed

lemma py_slice_set: "set (py_slice xs a b) \<subseteq> set xs"
  by (auto simp: py_slice_def Let_def dest: in_set_takeD in_set_dropD)

lemma py_slice_append:
  assumes "0 \<le> a" "a \<le> b" "b \<le> c" "c \<le> int (length xs)"
  shows "py_slice xs a b @ py_slice xs b c = py_slice xs a c"
proof -
  have nb: "nat b = nat a + nat (b - a)" using assms by simp
  have nc: "nat (c - a) = nat (b - a) + nat (c - b)" using assms by simp
  have "take (nat (b - a)) (drop (nat a) xs) @ take (nat (c - b)) (drop (nat a + nat (b - a)) xs)
        = take (nat (b - a) + nat (c - b)) (drop (nat a) xs)"
    by (simp add: take_add add.commute)
  then have "take (nat (b - a)) (drop (nat a) xs) @ take (nat (c - b)) (drop (nat b) xs)
        = take (nat (c - a)) (drop (nat a) xs)"
    using nb nc by simp
  then show ?thesis using assms by (simp add: py_slice_nat)
qed

lemma count_zeros_takeWhile:
  "count_zeros xs c = c + int (length (takeWhile (\<lambda>v. v = 0) xs))"
  by (induction xs arbitrary: c) auto

lemma zeros_run:
  "zeros_after_packet data start
     = min (int (length (takeWhile (\<lambda>v. v = 0) (py_slice data start 505)))) 254"
  by (simp add: zeros_after_packet_def Let_def count_zeros_takeWhile min_def)

section \<open>set\_channel\<close>

text \<open>
  C9. \<^verbatim>\<open>set_channel(channel, value)\<close> stores \<open>value\<close> at internal index \<open>channel - 1\<close> and
  checks no bound of its own: on the 512-entry frame every channel from 1 to 512 updates its
  slot, and channel 0 does not fail but overwrites the slot of channel 512 (Python's index
  \<open>-1\<close>, internal index 511).
\<close>

theorem set_channel_unguarded:
  assumes "length (frame self) = 512"
  shows "(1 \<le> channel \<and> channel \<le> 512 \<longrightarrow>
           set_channel self channel v = Inr (self\<lparr>frame := (frame self)[nat (channel - 1) := v]\<rparr>))
       \<and> set_channel self 0 v = Inr (self\<lparr>frame := (frame self)[511 := v]\<rparr>)"
  using assms by (simp add: set_channel_def py_store_def Let_def)

theorem set_channel_unguarded_witness:
  "length (frame (init 40)) = 512
   \<and> set_channel (init 40) 3 9 = Inr ((init 40)\<lparr>frame := (frame (init 40))[2 := 9]\<rparr>)
   \<and> set_channel (init 40) 0 9 = Inr ((init 40)\<lparr>frame := (frame (init 40))[511 := 9]\<rparr>)"
proof -
  have len: "length (frame (init 40)) = 512" by (simp add: init_def)
  show ?thesis
    using len set_channel_unguarded [OF len, of 3 9] set_channel_unguarded [OF len, of 0 9]
    by simp
qed

section \<open>zeros\_after\_packet\<close>

text \<open>
  C3, as stated, has the zero run never count channels 505 through 511. Channels are numbered
  from 1, so channel 505 is internal index 504, the last entry of \<^verbatim>\<open>data[start:505]\<close>, and the
  code does count it: on the all-zero frame a scan from index 504 returns 1.
\<close>

theorem zeros_after_packet_channel_505: "zeros_after_packet (replicate 512 0) 504 = 1"
  by code_simp

text \<open>
  C3, amended. With \<open>s\<close> the start index as Python's slice reads it and
  \<open>z = zeros_after_packet data start\<close>: \<open>z\<close> lies between 0 and 254; the \<open>z\<close> entries from
  \<open>s\<close> on are all zero and all lie at an internal index below 505 (channel 505 is the last
  one that can be counted, channels 506 through 512 never are); and below the cap of 254
  the run is maximal: it ends at index 505, at the end of the list, or at a nonzero entry.
\<close>

theorem zeros_after_packet_run:
  fixes data :: "int list" and start :: int
  defines "s \<equiv> slice_bound (length data) start"
  defines "z \<equiv> zeros_after_packet data start"
  shows "0 \<le> z \<and> z \<le> 254
       \<and> (\<forall>i. s \<le> i \<and> i < s + nat z \<longrightarrow> i < 505 \<and> i < length data \<and> data ! i = 0)
       \<and> (z < 254 \<longrightarrow> 505 \<le> s + nat z \<or> length data \<le> s + nat z \<or> data ! (s + nat z) \<noteq> 0)"
proof -
  define hi where "hi = slice_bound (length data) 505"
  define xs where "xs = py_slice data start 505"
  define k where "k = length (takeWhile (\<lambda>v. v = 0) xs)"
  have hi: "hi = min 505 (length data)" by (simp add: hi_def slice_bound_def)
  have xs: "xs = take (hi - s) (drop s data)"
    by (simp add: xs_def py_slice_def Let_def s_def hi_def)
  have z: "z = min (int k) 254"
    unfolding z_def k_def xs_def by (rule zeros_run)
  have klen: "k \<le> length xs" unfolding k_def by (rule length_takeWhile_le)
  have lenxs: "length xs = min (hi - s) (length data - s)" by (simp add: xs)
  have bounds: "0 \<le> z \<and> z \<le> 254" using z by simp
  have counted: "i < 505 \<and> i < length data \<and> data ! i = 0" if "s \<le> i \<and> i < s + nat z" for i
  proof -
    define j where "j = i - s"
    have i: "i = s + j" using that by (simp add: j_def)
    have "nat z \<le> k" using z by (simp add: min_def split: if_splits)
    then have jk: "j < k" using that unfolding j_def by linarith
    then have jlen: "j < length xs" using klen by simp
    then have ihi: "i < hi" and ilen: "i < length data" using lenxs i by auto
    have "takeWhile (\<lambda>v. v = 0) xs ! j \<in> set (takeWhile (\<lambda>v. v = 0) xs)"
      using jk by (simp add: k_def)
    then have "takeWhile (\<lambda>v. v = 0) xs ! j = 0" by (auto dest: set_takeWhileD)
    moreover have "takeWhile (\<lambda>v. v = 0) xs ! j = xs ! j"
      using jk by (simp add: k_def takeWhile_nth)
    ultimately have "xs ! j = 0" by simp
    moreover have "xs ! j = data ! i"
    proof -
      have "s \<le> length data" using ilen i by simp
      then show ?thesis using jlen i by (simp add: xs)
    qed
    ultimately show ?thesis using ihi ilen hi by simp
  qed
  have maximal: "505 \<le> s + nat z \<or> length data \<le> s + nat z \<or> data ! (s + nat z) \<noteq> 0" if "z < 254"
  proof -
    have zk: "nat z = k" using that z by (simp add: min_def split: if_splits)
    show ?thesis
    proof (cases "k < length xs")
      case True
      then have "\<not> (xs ! k = 0)" unfolding k_def by (rule nth_length_takeWhile)
      moreover have "xs ! k = data ! (s + k)"
      proof -
        have "s \<le> length data" using True lenxs by linarith
        then show ?thesis using True by (simp add: xs)
      qed
      ultimately show ?thesis using zk by simp
    next
      case False
      then have "k = length xs" using klen by simp
      then show ?thesis using lenxs zk hi by (auto simp: min_def split: if_splits)
    qed
  qed
  show ?thesis using bounds counted maximal by blast
qed

theorem zeros_after_packet_run_witness:
  "slice_bound (length [7, 0, 0, 5, 0 :: int]) 1 = 1
   \<and> zeros_after_packet [7, 0, 0, 5, 0] 1 = 2
   \<and> [7, 0, 0, 5, 0 :: int] ! 2 = 0
   \<and> [7, 0, 0, 5, 0 :: int] ! 3 \<noteq> 0"
proof -
  have s: "slice_bound (length [7, 0, 0, 5, 0 :: int]) 1 = 1" by (simp add: slice_bound_def)
  have z: "zeros_after_packet [7, 0, 0, 5, 0] 1 = 2" by code_simp
  from zeros_after_packet_run [of "[7, 0, 0, 5, 0]" 1]
  have run: "\<forall>i. 1 \<le> i \<and> i < 1 + nat 2 \<longrightarrow> i < 505 \<and> i < length [7, 0, 0, 5, 0 :: int]
                 \<and> [7, 0, 0, 5, 0 :: int] ! i = 0"
    and stop: "(2::int) < 254 \<longrightarrow> 505 \<le> 1 + nat 2 \<or> length [7, 0, 0, 5, 0 :: int] \<le> 1 + nat 2
                 \<or> [7, 0, 0, 5, 0 :: int] ! (1 + nat 2) \<noteq> 0"
    unfolding s z by blast+
  from run have "[7, 0, 0, 5, 0 :: int] ! 2 = 0" by simp
  moreover from stop have "[7, 0, 0, 5, 0 :: int] ! 3 \<noteq> 0" by simp
  ultimately show ?thesis using s z by simp
qed

section \<open>The packets of a frame\<close>

text \<open>
  The channels a packet stands for, read by the packet grammar: a start packet (type 4) holds
  its skip count plus one and then values, a skip packet (type 5) its skip count and then
  values, a data packet (type 2) values only, a single packet (type 3) one value and padding.
  A skipped channel is a zero. This is the receiver's side; the encoder has no such function.
\<close>

definition channels_of_packet :: "byte list \<Rightarrow> int list" where
  "channels_of_packet p =
     (case p of
        [] \<Rightarrow> []
      | t # rest \<Rightarrow>
          if t = 4 then
            (case rest of [] \<Rightarrow> [] | s # vals \<Rightarrow> replicate (unat s - 1) 0 @ map uint vals)
          else if t = 2 then map uint rest
          else if t = 3 then (case rest of [] \<Rightarrow> [] | v # pad \<Rightarrow> [uint v])
          else if t = 5 then
            (case rest of [] \<Rightarrow> [] | s # vals \<Rightarrow> replicate (unat s) 0 @ map uint vals)
          else [])"

text \<open>What a successful packet writer did to the device.\<close>

lemma dev_write_effect:
  "dev_write dev ep p = Inr dev' \<Longrightarrow> dev' = dev\<lparr>written := written dev @ [(ep, p)]\<rparr>"
  by (auto simp: dev_write_def split: if_splits)

lemma send_start_effect:
  assumes "send_start dev skip vals = Inr dev'"
  shows "\<exists>p. length p = 2 + length vals \<and> dev' = dev\<lparr>written := written dev @ [(1, p)]\<rparr>"
  using assms
  by (auto simp: send_start_def split: sum.splits
           dest!: dev_write_effect append_bytes_length to_bytes_one_length)

lemma send_data_skip_effect:
  assumes "send_data_skip dev skip vals = Inr dev'"
  shows "\<exists>p. length p = 2 + length vals \<and> dev' = dev\<lparr>written := written dev @ [(1, p)]\<rparr>"
  using assms
  by (auto simp: send_data_skip_def split: sum.splits
           dest!: dev_write_effect append_bytes_length to_bytes_one_length)

lemma send_data_effect:
  assumes "send_data dev vals = Inr dev'"
  shows "\<exists>p. length p = 1 + length vals \<and> dev' = dev\<lparr>written := written dev @ [(1, p)]\<rparr>"
  using assms
  by (auto simp: send_data_def split: sum.splits
           dest!: dev_write_effect append_bytes_length to_bytes_one_length)

lemma send_single_effect:
  assumes "send_single dev v = Inr dev'"
  shows "\<exists>p. length p = 8 \<and> dev' = dev\<lparr>written := written dev @ [(1, p)]\<rparr>"
proof -
  from assms obtain t b where t: "to_bytes 3 (Suc 0) = Inr t" and b: "to_bytes v (Suc 0) = Inr b"
    and w: "dev_write dev 1 (t @ b @ [0, 0, 0, 0, 0, 0]) = Inr dev'"
    by (auto simp: send_single_def to_bytes_zero_six split: sum.splits)
  have "length (t @ b @ [0, 0, 0, 0, 0, 0 :: byte]) = 8"
    using to_bytes_one_length [OF t] to_bytes_one_length [OF b] by simp
  moreover have "dev' = dev\<lparr>written := written dev @ [(1, t @ b @ [0, 0, 0, 0, 0, 0])]\<rparr>"
    using w by (rule dev_write_effect)
  ultimately show ?thesis by blast
qed

lemma zeros_le_tail:
  assumes "0 \<le> cnt" "cnt \<le> 505" "505 \<le> int (length data)"
  shows "cnt + zeros_after_packet data cnt \<le> 505"
proof -
  have "length (takeWhile (\<lambda>v. v = 0) (py_slice data cnt 505)) \<le> length (py_slice data cnt 505)"
    by (rule length_takeWhile_le)
  also have "\<dots> = nat (505 - cnt)" using assms by (simp add: py_slice_nat)
  finally show ?thesis using assms by (simp add: zeros_run)
qed

lemma zeros_le_254: "zeros_after_packet data cnt \<le> 254"
  by (simp add: zeros_run)

lemma body_start:
  "make_frame_body self dev 0 =
     (case send_start dev (zeros_after_packet (frame self) 0)
             (py_slice (frame self) (zeros_after_packet (frame self) 0)
                (zeros_after_packet (frame self) 0 + 6)) of
        Inl e \<Rightarrow> Inl e
      | Inr dev' \<Rightarrow> Inr (dev', 6 + zeros_after_packet (frame self) 0, Continue))"
  by (simp add: make_frame_body_def Let_def)

lemma body_seven:
  "make_frame_body self dev 505 =
     (case send_data dev (py_slice (frame self) 505 512) of
        Inl e \<Rightarrow> Inl e
      | Inr dev' \<Rightarrow> Inr (dev', 512, Continue))"
  by (simp add: make_frame_body_def Let_def split: sum.split)

lemma body_single:
  "505 < cnt \<Longrightarrow> cnt < 511 \<Longrightarrow>
   make_frame_body self dev cnt =
     (case py_index (frame self) cnt of
        Inl e \<Rightarrow> Inl e
      | Inr v \<Rightarrow>
          (case send_single dev v of
             Inl e \<Rightarrow> Inl e
           | Inr dev' \<Rightarrow> Inr (dev', cnt + 1, Continue)))"
  by (simp add: make_frame_body_def Let_def)

lemma body_skip:
  "cnt \<noteq> 0 \<Longrightarrow> cnt \<le> 504 \<Longrightarrow> 0 < zeros_after_packet (frame self) cnt \<Longrightarrow>
   make_frame_body self dev cnt =
     (case send_data_skip dev (zeros_after_packet (frame self) cnt)
             (py_slice (frame self) (cnt + zeros_after_packet (frame self) cnt)
                (cnt + zeros_after_packet (frame self) cnt + 6)) of
        Inl e \<Rightarrow> Inl e
      | Inr dev' \<Rightarrow> Inr (dev', cnt + zeros_after_packet (frame self) cnt + 6, Continue))"
  by (simp add: make_frame_body_def Let_def)

lemma body_data:
  "cnt \<noteq> 0 \<Longrightarrow> cnt \<le> 504 \<Longrightarrow> zeros_after_packet (frame self) cnt = 0 \<Longrightarrow>
   make_frame_body self dev cnt =
     (case send_data dev (py_slice (frame self) cnt (cnt + 7)) of
        Inl e \<Rightarrow> Inl e
      | Inr dev' \<Rightarrow> Inr (dev', cnt + 7, Continue))"
  by (simp add: make_frame_body_def Let_def)

lemma make_frame_body_effect:
  assumes len: "length (frame self) = 512"
    and cnt: "0 \<le> cnt" "cnt < 511"
    and body: "make_frame_body self dev cnt = Inr (dev', cnt', fl)"
  shows "fl = Continue \<and> cnt < cnt' \<and> cnt' \<le> 512 \<and> (cnt' = 512 \<longrightarrow> cnt = 505)
         \<and> (\<exists>p. length p = 8 \<and> dev' = dev\<lparr>written := written dev @ [(1, p)]\<rparr>)"
proof -
  define zeros where "zeros = zeros_after_packet (frame self) cnt"
  have z0: "0 \<le> zeros" unfolding zeros_def by (rule zeros_after_packet_nonneg)
  have z254: "zeros \<le> 254" unfolding zeros_def by (rule zeros_le_254)
  have ztail: "cnt \<le> 505 \<Longrightarrow> cnt + zeros \<le> 505"
    unfolding zeros_def using cnt len by (intro zeros_le_tail) simp_all
  consider (start) "cnt = 0" | (seven) "cnt = 505" | (single) "505 < cnt"
    | (skip) "0 < cnt" "cnt \<le> 504" "0 < zeros" | (data) "0 < cnt" "cnt \<le> 504" "zeros = 0"
    using cnt z0 by linarith
  then show ?thesis
  proof cases
    case start
    from body obtain d where s: "send_start dev zeros (py_slice (frame self) zeros (zeros + 6)) = Inr d"
      and r: "dev' = d" "cnt' = 6 + zeros" "fl = Continue"
      unfolding start body_start zeros_def by (auto split: sum.splits)
    from send_start_effect [OF s] obtain p
      where p: "length p = 2 + length (py_slice (frame self) zeros (zeros + 6))"
        "d = dev\<lparr>written := written dev @ [(1, p)]\<rparr>" by blast
    have "length (py_slice (frame self) zeros (zeros + 6)) = 6"
      using z0 z254 len by (simp add: py_slice_nat)
    with p r start z0 z254 show ?thesis by auto
  next
    case seven
    from body obtain d where s: "send_data dev (py_slice (frame self) 505 512) = Inr d"
      and r: "dev' = d" "cnt' = 512" "fl = Continue"
      unfolding seven body_seven by (auto split: sum.splits)
    from send_data_effect [OF s] obtain p
      where p: "length p = 1 + length (py_slice (frame self) 505 512)"
        "d = dev\<lparr>written := written dev @ [(1, p)]\<rparr>" by blast
    have "length (py_slice (frame self) 505 512) = 7"
      using len by (simp add: py_slice_nat)
    with p r seven show ?thesis by auto
  next
    case single
    from body obtain v d where s: "send_single dev v = Inr d"
      and r: "dev' = d" "cnt' = cnt + 1" "fl = Continue"
      unfolding body_single [OF single cnt(2)] by (auto split: sum.splits)
    from send_single_effect [OF s] obtain p
      where p: "length p = 8" "d = dev\<lparr>written := written dev @ [(1, p)]\<rparr>" by blast
    with r single cnt show ?thesis by auto
  next
    case skip
    have b: "make_frame_body self dev cnt =
       (case send_data_skip dev zeros (py_slice (frame self) (cnt + zeros) (cnt + zeros + 6)) of
          Inl e \<Rightarrow> Inl e | Inr dev' \<Rightarrow> Inr (dev', cnt + zeros + 6, Continue))"
      unfolding zeros_def using skip by (intro body_skip) (simp_all add: zeros_def)
    from body obtain d
      where s: "send_data_skip dev zeros (py_slice (frame self) (cnt + zeros) (cnt + zeros + 6)) = Inr d"
      and r: "dev' = d" "cnt' = cnt + zeros + 6" "fl = Continue"
      unfolding b by (auto split: sum.splits)
    from send_data_skip_effect [OF s] obtain p
      where p: "length p = 2 + length (py_slice (frame self) (cnt + zeros) (cnt + zeros + 6))"
        "d = dev\<lparr>written := written dev @ [(1, p)]\<rparr>" by blast
    have "length (py_slice (frame self) (cnt + zeros) (cnt + zeros + 6)) = 6"
      using skip ztail len by (simp add: py_slice_nat)
    with p r skip ztail show ?thesis by auto
  next
    case data
    have b: "make_frame_body self dev cnt =
       (case send_data dev (py_slice (frame self) cnt (cnt + 7)) of
          Inl e \<Rightarrow> Inl e | Inr dev' \<Rightarrow> Inr (dev', cnt + 7, Continue))"
      using data by (intro body_data) (simp_all add: zeros_def)
    from body obtain d where s: "send_data dev (py_slice (frame self) cnt (cnt + 7)) = Inr d"
      and r: "dev' = d" "cnt' = cnt + 7" "fl = Continue"
      unfolding b by (auto split: sum.splits)
    from send_data_effect [OF s] obtain p
      where p: "length p = 1 + length (py_slice (frame self) cnt (cnt + 7))"
        "d = dev\<lparr>written := written dev @ [(1, p)]\<rparr>" by blast
    have "length (py_slice (frame self) cnt (cnt + 7)) = 7"
      using data len by (simp add: py_slice_nat)
    with p r data show ?thesis by auto
  qed
qed

text \<open>
  The same loop with a bound on the number of passes through its body: \<open>None\<close> when the
  bound is used up before the loop ends.
\<close>

fun make_frame_fuel ::
  "nat \<Rightarrow> DMX_controller \<Rightarrow> usb_device \<Rightarrow> int
     \<Rightarrow> (DMX_controller \<times> usb_device \<times> (error + int)) option" where
  "make_frame_fuel 0 self dev cnt =
     (if cnt < 511 then None else Some (self, dev, Inr cnt))"
| "make_frame_fuel (Suc n) self dev cnt =
     (if cnt < 511 then
        (case make_frame_body self dev cnt of
           Inl e \<Rightarrow> Some (self, dev, Inl e)
         | Inr (dev', cnt', Continue) \<Rightarrow> make_frame_fuel n self dev' cnt'
         | Inr (dev', cnt', Break) \<Rightarrow> Some (self, dev', Inr cnt'))
      else Some (self, dev, Inr cnt))"

lemma make_frame_body_no_break:
  "cnt < 511 \<Longrightarrow> make_frame_body self dev cnt \<noteq> Inr (dev', cnt', Break)"
  by (auto simp: make_frame_body_def Let_def split: if_splits sum.splits)

lemma make_frame_loop_self: "fst (make_frame_loop self dev cnt) = self"
proof (induction self dev cnt rule: make_frame_loop.induct)
  case (1 self dev cnt)
  show ?case
  proof (cases "cnt < 511")
    case False
    then show ?thesis by (subst make_frame_loop.simps) simp
  next
    case True
    show ?thesis
    proof (cases "make_frame_body self dev cnt")
      case (Inl e)
      with True show ?thesis by (subst make_frame_loop.simps) simp
    next
      case (Inr x2)
      obtain dev' cnt' fl where x2: "x2 = (dev', cnt', fl)" by (cases x2) auto
      show ?thesis
      proof (cases fl)
        case Continue
        have "fst (make_frame_loop self dev' cnt') = self"
          using "1.IH" [OF True Inr, of dev' "(cnt', fl)" cnt' fl] x2 Continue by simp
        with True Inr x2 Continue show ?thesis by (subst make_frame_loop.simps) simp
      next
        case Break
        with True Inr x2 show ?thesis by (subst make_frame_loop.simps) simp
      qed
    qed
  qed
qed

lemma make_frame_fuel_enough:
  "nat (511 - cnt) \<le> n \<Longrightarrow> make_frame_fuel n self dev cnt = Some (make_frame_loop self dev cnt)"
proof (induction n arbitrary: dev cnt)
  case 0
  then have "\<not> cnt < 511" by simp
  then show ?case by (subst make_frame_loop.simps) simp
next
  case (Suc n)
  show ?case
  proof (cases "cnt < 511")
    case False
    then show ?thesis by (subst make_frame_loop.simps) simp
  next
    case True
    show ?thesis
    proof (cases "make_frame_body self dev cnt")
      case (Inl e)
      with True show ?thesis by (subst make_frame_loop.simps) simp
    next
      case (Inr x2)
      obtain dev' cnt' fl where x2: "x2 = (dev', cnt', fl)" by (cases x2) auto
      show ?thesis
      proof (cases fl)
        case Continue
        have "cnt + 1 \<le> cnt'"
          using Inr x2 Continue by (intro make_frame_body_advances [of self dev cnt dev']) simp
        with Suc.prems have "nat (511 - cnt') \<le> n" by simp
        then have "make_frame_fuel n self dev' cnt' = Some (make_frame_loop self dev' cnt')"
          by (rule Suc.IH)
        with True Inr x2 Continue show ?thesis by (subst make_frame_loop.simps) simp
      next
        case Break
        with True Inr x2 show ?thesis by (subst make_frame_loop.simps) simp
      qed
    qed
  qed
qed

lemma make_frame_loop_stop: "\<not> cnt < 511 \<Longrightarrow> make_frame_loop self dev cnt = (self, dev, Inr cnt)"
  by (subst make_frame_loop.simps) simp

lemma make_frame_loop_step:
  "cnt < 511 \<Longrightarrow> make_frame_body self dev cnt = Inr (dev', cnt', Continue) \<Longrightarrow>
   make_frame_loop self dev cnt = make_frame_loop self dev' cnt'"
  by (subst make_frame_loop.simps) simp

lemma make_frame_loop_raise:
  "cnt < 511 \<Longrightarrow> make_frame_body self dev cnt = Inl e \<Longrightarrow>
   make_frame_loop self dev cnt = (self, dev, Inl e)"
  by (subst make_frame_loop.simps) simp

lemma make_frame_loop_packets:
  assumes "length (frame self) = 512" and "0 \<le> cnt"
  shows "\<exists>ps r. make_frame_loop self dev cnt
                  = (self, dev\<lparr>written := written dev @ map (Pair 1) ps\<rparr>, r)
               \<and> list_all (\<lambda>p. length p = 8) ps
               \<and> (case r of Inl e \<Rightarrow> True | Inr c \<Rightarrow> 511 \<le> c)"
  using assms
proof (induction self dev cnt rule: make_frame_loop.induct)
  case (1 self dev cnt)
  show ?case
  proof (cases "cnt < 511")
    case False
    then have "make_frame_loop self dev cnt = (self, dev\<lparr>written := written dev @ map (Pair 1) []\<rparr>, Inr cnt)"
      by (simp add: make_frame_loop_stop)
    with False show ?thesis by (intro exI [of _ "[]"] exI [of _ "Inr cnt"]) simp
  next
    case True
    show ?thesis
    proof (cases "make_frame_body self dev cnt")
      case (Inl e)
      with True have "make_frame_loop self dev cnt = (self, dev\<lparr>written := written dev @ map (Pair 1) []\<rparr>, Inl e)"
        by (simp add: make_frame_loop_raise)
      then show ?thesis by (intro exI [of _ "[]"] exI [of _ "Inl e"]) simp
    next
      case (Inr x2)
      obtain dev' cnt' fl where x2: "x2 = (dev', cnt', fl)" by (cases x2) auto
      from make_frame_body_effect [OF "1.prems"(1) "1.prems"(2) True Inr [unfolded x2]]
      obtain p where fl: "fl = Continue" and adv: "cnt < cnt'" and p: "length p = 8"
        and dev': "dev' = dev\<lparr>written := written dev @ [(1, p)]\<rparr>" by blast
      have "0 \<le> cnt'" using adv "1.prems"(2) by simp
      with "1.IH" [OF True Inr, of dev' "(cnt', fl)" cnt' fl] x2 fl "1.prems"(1)
      obtain ps r where rest: "make_frame_loop self dev' cnt'
                  = (self, dev'\<lparr>written := written dev' @ map (Pair 1) ps\<rparr>, r)"
        and ps: "list_all (\<lambda>p. length p = 8) ps"
        and r: "(case r of Inl e \<Rightarrow> True | Inr c \<Rightarrow> 511 \<le> c)" by auto
      have "make_frame_loop self dev cnt = make_frame_loop self dev' cnt'"
        using True Inr x2 fl by (simp add: make_frame_loop_step)
      also have "\<dots> = (self, dev\<lparr>written := written dev @ map (Pair 1) (p # ps)\<rparr>, r)"
        unfolding rest by (simp add: dev')
      finally show ?thesis using ps p r by (intro exI [of _ "p # ps"] exI [of _ r]) simp
    qed
  qed
qed

section \<open>Example inputs\<close>

text \<open>A device that has written nothing and accepts every write.\<close>

definition idle_device :: usb_device where
  "idle_device = \<lparr>written = [], healthy = (\<lambda>k. True)\<rparr>"

text \<open>A device that accepts its first write and refuses the second.\<close>

definition failing_device :: usb_device where
  "failing_device = \<lparr>written = [], healthy = (\<lambda>k. k < 1)\<rparr>"

text \<open>
  The frame after \<^verbatim>\<open>set_channel(500, 1)\<close> and \<^verbatim>\<open>set_channel(512, 9)\<close> on a new controller:
  internal index 499 holds 1, index 511 holds 9, every other channel is zero.
\<close>

definition tail_controller :: DMX_controller where
  "tail_controller =
     \<lparr>update_rate_ms = 40,
      frame = replicate 499 0 @ [1] @ replicate 11 0 @ [9],
      prev_frame = replicate 512 0\<rparr>"

text \<open>A frame with channel 1 at 1, channels 7 to 13 at 11 to 17, and zero elsewhere.\<close>

definition data_controller :: DMX_controller where
  "data_controller =
     \<lparr>update_rate_ms = 40,
      frame = [1, 0, 0, 0, 0, 0, 11, 12, 13, 14, 15, 16, 17] @ replicate 499 0,
      prev_frame = replicate 512 0\<rparr>"

lemma tail_controller_length: "length (frame tail_controller) = 512"
  by (simp add: tail_controller_def)

lemma data_controller_length: "length (frame data_controller) = 512"
  by (simp add: data_controller_def)

lemma tail_packets:
  "map snd (written (fst (snd (make_frame tail_controller idle_device))))
     = [[4, 255, 0, 0, 0, 0, 0, 0], [5, 239, 1, 0, 0, 0, 0, 0], [2, 0, 0, 0, 0, 0, 0, 9]]"
  by code_simp

lemma tail_cursor: "snd (snd (make_frame tail_controller idle_device)) = Inr 512"
  by code_simp

lemma data_packets:
  "map snd (written (fst (snd (make_frame data_controller idle_device))))
     = [[4, 1, 1, 0, 0, 0, 0, 0], [2, 11, 12, 13, 14, 15, 16, 17],
        [5, 254, 0, 0, 0, 0, 0, 0], [5, 232, 0, 0, 0, 0, 0, 0]]"
  by code_simp

lemma data_cursor: "snd (snd (make_frame data_controller idle_device)) = Inr 511"
  by code_simp

lemma failing_packets:
  "map snd (written (fst (snd (make_frame data_controller failing_device))))
     = [[4, 1, 1, 0, 0, 0, 0, 0]]"
  by code_simp

lemma failing_result: "snd (snd (make_frame data_controller failing_device)) = Inl USBError"
  by code_simp

section \<open>make\_frame: payloads, termination, the controller's fields\<close>

text \<open>
  C4. Every packet that \<^verbatim>\<open>make_frame\<close> writes for a 512-channel frame goes to endpoint 1 and
  is a payload of exactly 8 bytes. The theorem needs no bound on the channel values: a value
  outside 0 to 255 raises OverflowError before the packet that would hold it is written, so
  the claim's frames, with every value in that range, are covered.
\<close>

theorem make_frame_payload_8_bytes:
  assumes "length (frame self) = 512"
  shows "\<exists>ps. written (fst (snd (make_frame self dev))) = written dev @ map (Pair 1) ps
             \<and> list_all (\<lambda>p. length p = 8) ps"
proof -
  from make_frame_loop_packets [OF assms, of 0 dev]
  obtain ps r where "make_frame self dev = (self, dev\<lparr>written := written dev @ map (Pair 1) ps\<rparr>, r)"
    and "list_all (\<lambda>p. length p = 8) ps"
    unfolding make_frame_def by auto
  then show ?thesis by (intro exI [of _ ps]) simp
qed

theorem make_frame_payload_8_bytes_witness:
  "length (frame data_controller) = 512
   \<and> map snd (written (fst (snd (make_frame data_controller idle_device))))
       = [[4, 1, 1, 0, 0, 0, 0, 0], [2, 11, 12, 13, 14, 15, 16, 17],
          [5, 254, 0, 0, 0, 0, 0, 0], [5, 232, 0, 0, 0, 0, 0, 0]]
   \<and> list_all (\<lambda>p. length p = 8)
        (map snd (written (fst (snd (make_frame data_controller idle_device)))))"
proof -
  from make_frame_payload_8_bytes [OF data_controller_length, of idle_device]
  obtain ps where "written (fst (snd (make_frame data_controller idle_device)))
                     = written idle_device @ map (Pair 1) ps"
    and all8: "list_all (\<lambda>p. length p = 8) ps" by blast
  then have "map snd (written (fst (snd (make_frame data_controller idle_device)))) = ps"
    by (simp add: idle_device_def comp_def)
  with all8 data_packets data_controller_length show ?thesis by simp
qed

text \<open>
  C8. \<^verbatim>\<open>make_frame\<close> terminates on every frame: a pass through the loop body that does not
  raise moves the cursor forward by at least 1 and never takes the \<^verbatim>\<open>break\<close>, so 511
  passes are enough for the loop to end, and when it ends without an exception the cursor
  is at 511 or beyond.
\<close>

theorem make_frame_terminates:
  "(\<forall>dev cnt dev' cnt' fl.
      cnt < 511 \<and> make_frame_body self dev cnt = Inr (dev', cnt', fl)
        \<longrightarrow> fl = Continue \<and> cnt + 1 \<le> cnt')
   \<and> make_frame_fuel 511 self dev 0 = Some (make_frame self dev)
   \<and> (\<forall>c. snd (snd (make_frame self dev)) = Inr c \<longrightarrow> 511 \<le> c)"
proof -
  have step: "fl = Continue \<and> cnt + 1 \<le> cnt'"
    if "cnt < 511 \<and> make_frame_body self dev cnt = Inr (dev', cnt', fl)"
    for dev cnt dev' cnt' fl
  proof -
    have "fl = Continue"
      using that make_frame_body_no_break [of cnt self dev dev' cnt'] by (cases fl) auto
    with that show ?thesis by (auto dest: make_frame_body_advances)
  qed
  have fuel: "make_frame_fuel 511 self dev 0 = Some (make_frame self dev)"
    unfolding make_frame_def by (rule make_frame_fuel_enough) simp
  have stop: "511 \<le> c" if "snd (snd (make_frame_loop self dev cnt)) = Inr c" for cnt c
    using that
  proof (induction self dev cnt rule: make_frame_loop.induct)
    case (1 self dev cnt)
    show ?case
    proof (cases "cnt < 511")
      case False
      with "1.prems" show ?thesis by (simp add: make_frame_loop_stop)
    next
      case True
      show ?thesis
      proof (cases "make_frame_body self dev cnt")
        case (Inl e)
        with True "1.prems" show ?thesis by (simp add: make_frame_loop_raise)
      next
        case (Inr x2)
        obtain dev' cnt' fl where x2: "x2 = (dev', cnt', fl)" by (cases x2) auto
        have fl: "fl = Continue"
          using True Inr x2 make_frame_body_no_break [of cnt self dev dev' cnt'] by (cases fl) auto
        have "make_frame_loop self dev cnt = make_frame_loop self dev' cnt'"
          using True Inr x2 fl by (simp add: make_frame_loop_step)
        with "1.prems" have "snd (snd (make_frame_loop self dev' cnt')) = Inr c" by simp
        with "1.IH" [OF True Inr, of dev' "(cnt', fl)" cnt' fl] x2 fl show ?thesis by simp
      qed
    qed
  qed
  from step fuel stop [of 0] show ?thesis unfolding make_frame_def by blast
qed

lemma idle_first_pass:
  "make_frame_body (init 40) idle_device 0
     = Inr (idle_device\<lparr>written := [(1, [4, 255, 0, 0, 0, 0, 0, 0])]\<rparr>, 260, Continue)"
proof -
  have z: "zeros_after_packet (replicate 512 0) 0 = 254" by code_simp
  have s: "py_slice (replicate 512 (0::int)) 254 260 = [0, 0, 0, 0, 0, 0]" by code_simp
  have b: "to_bytes 4 (Suc 0) = Inr [4]" "to_bytes 255 (Suc 0) = Inr [255]" "to_bytes 0 (Suc 0) = Inr [0]"
    by (simp_all add: to_bytes_one)
  show ?thesis
    by (simp add: body_start init_def z s send_start_def b dev_write_def idle_device_def)
qed

theorem make_frame_terminates_witness:
  "make_frame_body (init 40) idle_device 0
     = Inr (idle_device\<lparr>written := [(1, [4, 255, 0, 0, 0, 0, 0, 0])]\<rparr>, 260, Continue)
   \<and> (0::int) + 1 \<le> 260
   \<and> make_frame_fuel 511 (init 40) idle_device 0 = Some (make_frame (init 40) idle_device)
   \<and> snd (snd (make_frame (init 40) idle_device)) = Inr 511"
proof -
  have r: "snd (snd (make_frame (init 40) idle_device)) = Inr 511" by code_simp
  from make_frame_terminates [of "init 40" idle_device] idle_first_pass
  have "(0::int) + 1 \<le> 260"
    and "make_frame_fuel 511 (init 40) idle_device 0 = Some (make_frame (init 40) idle_device)"
    by simp_all
  with idle_first_pass r show ?thesis by simp
qed

text \<open>
  C10. \<^verbatim>\<open>make_frame\<close> leaves the controller as it found it: \<^verbatim>\<open>frame\<close>, \<^verbatim>\<open>prev_frame\<close> and
  \<^verbatim>\<open>update_rate_ms\<close> hold after the call what they held before, also when the call ends in
  an exception. Only the device changes.
\<close>

theorem make_frame_keeps_controller:
  "frame (fst (make_frame self dev)) = frame self
   \<and> prev_frame (fst (make_frame self dev)) = prev_frame self
   \<and> update_rate_ms (fst (make_frame self dev)) = update_rate_ms self"
  by (simp add: make_frame_def make_frame_loop_self)

section \<open>A frame in range on a healthy device\<close>

text \<open>
  The channel at which packet \<open>k\<close> of a list of packets starts, when the first one starts at
  cursor \<open>cnt\<close>: \<open>cnt\<close> plus the number of channels the packets before it stand for.
\<close>

definition packet_offset :: "int \<Rightarrow> byte list list \<Rightarrow> nat \<Rightarrow> int" where
  "packet_offset cnt ps k = cnt + int (length (concat (map channels_of_packet (take k ps))))"

lemma packet_offset_0: "packet_offset cnt ps 0 = cnt"
  by (simp add: packet_offset_def)

lemma packet_offset_Suc:
  "packet_offset cnt (p # ps) (Suc k)
     = packet_offset (cnt + int (length (channels_of_packet p))) ps k"
  by (simp add: packet_offset_def)

lemma map_uint_bytes:
  "\<forall>v\<in>set vs. 0 \<le> v \<and> v \<le> 255 \<Longrightarrow> map (uint \<circ> (word_of_int :: int \<Rightarrow> byte)) vs = vs"
  by (induction vs) (simp_all add: uint_byte)

lemma channels_start:
  assumes "0 \<le> skip" "skip \<le> 254" "\<forall>v\<in>set vs. 0 \<le> v \<and> v \<le> 255"
  shows "channels_of_packet (4 # word_of_int (skip + 1) # map word_of_int vs)
           = replicate (nat skip) 0 @ vs"
proof -
  have "unat (word_of_int (skip + 1) :: byte) = nat (skip + 1)"
    using assms by (intro unat_byte) simp_all
  then have "unat (word_of_int (skip + 1) :: byte) - 1 = nat skip" using assms by simp
  then show ?thesis using assms(3) by (simp add: channels_of_packet_def map_uint_bytes)
qed

lemma channels_skip:
  assumes "0 \<le> skip" "skip \<le> 255" "\<forall>v\<in>set vs. 0 \<le> v \<and> v \<le> 255"
  shows "channels_of_packet (5 # word_of_int skip # map word_of_int vs)
           = replicate (nat skip) 0 @ vs"
proof -
  have "unat (word_of_int skip :: byte) = nat skip"
    using assms by (intro unat_byte) simp_all
  then show ?thesis using assms(3) by (simp add: channels_of_packet_def map_uint_bytes)
qed

lemma channels_data:
  assumes "\<forall>v\<in>set vs. 0 \<le> v \<and> v \<le> 255"
  shows "channels_of_packet (2 # map word_of_int vs) = vs"
  using assms by (simp add: channels_of_packet_def map_uint_bytes)

lemma channels_single:
  assumes "0 \<le> v" "v \<le> 255"
  shows "channels_of_packet (3 # word_of_int v # pad) = [v]"
  using assms by (simp add: channels_of_packet_def uint_byte)

lemma send_start_ok:
  assumes "healthy dev (length (written dev))" "0 \<le> skip" "skip \<le> 254"
    "\<forall>v\<in>set vs. 0 \<le> v \<and> v \<le> 255"
  shows "send_start dev skip vs
           = Inr (dev\<lparr>written := written dev @ [(1, 4 # word_of_int (skip + 1) # map word_of_int vs)]\<rparr>)"
proof -
  have "\<forall>v\<in>set vs. 0 \<le> v \<and> v < 256" using assms(4) by auto
  then show ?thesis
    using assms(1-3) by (simp add: send_start_def to_bytes_one append_bytes_ok dev_write_def)
qed

lemma send_data_skip_ok:
  assumes "healthy dev (length (written dev))" "0 \<le> skip" "skip \<le> 255"
    "\<forall>v\<in>set vs. 0 \<le> v \<and> v \<le> 255"
  shows "send_data_skip dev skip vs
           = Inr (dev\<lparr>written := written dev @ [(1, 5 # word_of_int skip # map word_of_int vs)]\<rparr>)"
proof -
  have "\<forall>v\<in>set vs. 0 \<le> v \<and> v < 256" using assms(4) by auto
  then show ?thesis
    using assms(1-3) by (simp add: send_data_skip_def to_bytes_one append_bytes_ok dev_write_def)
qed

lemma send_data_ok:
  assumes "healthy dev (length (written dev))" "\<forall>v\<in>set vs. 0 \<le> v \<and> v \<le> 255"
  shows "send_data dev vs = Inr (dev\<lparr>written := written dev @ [(1, 2 # map word_of_int vs)]\<rparr>)"
proof -
  have "\<forall>v\<in>set vs. 0 \<le> v \<and> v < 256" using assms(2) by auto
  then show ?thesis
    using assms(1) by (simp add: send_data_def to_bytes_one append_bytes_ok dev_write_def)
qed

lemma send_single_ok:
  assumes "healthy dev (length (written dev))" "0 \<le> v" "v \<le> 255"
  shows "send_single dev v
           = Inr (dev\<lparr>written := written dev @ [(1, 3 # word_of_int v # [0, 0, 0, 0, 0, 0])]\<rparr>)"
  using assms by (simp add: send_single_def to_bytes_one to_bytes_zero_six dev_write_def)

lemma zeros_prefix:
  assumes "0 \<le> cnt" "cnt \<le> 505" "505 \<le> int (length data)"
  shows "py_slice data cnt (cnt + zeros_after_packet data cnt)
           = replicate (nat (zeros_after_packet data cnt)) 0"
proof -
  define xs where "xs = py_slice data cnt 505"
  define z where "z = nat (zeros_after_packet data cnt)"
  have xs: "xs = take (nat (505 - cnt)) (drop (nat cnt) data)"
    unfolding xs_def using assms by (simp add: py_slice_nat)
  have zk: "z \<le> length (takeWhile (\<lambda>v. v = 0) xs)"
    unfolding z_def xs_def by (simp add: zeros_run)
  have zint: "zeros_after_packet data cnt = int z"
    unfolding z_def using zeros_after_packet_nonneg [of data cnt] by simp
  have ztail: "cnt + int z \<le> 505"
    using zeros_le_tail [OF assms] zint by simp
  have "py_slice data cnt (cnt + int z) = take z (drop (nat cnt) data)"
    using assms ztail by (simp add: py_slice_nat)
  also have "\<dots> = take z xs"
  proof -
    have "z \<le> nat (505 - cnt)" using ztail assms by linarith
    then show ?thesis by (simp add: xs min_def)
  qed
  also have "\<dots> = take z (takeWhile (\<lambda>v. v = 0) xs)"
  proof -
    have "take z (takeWhile (\<lambda>v. v = 0) xs @ dropWhile (\<lambda>v. v = 0) xs)
            = take z (takeWhile (\<lambda>v. v = 0) xs)"
      using zk by (simp del: takeWhile_dropWhile_id)
    then show ?thesis by simp
  qed
  also have "\<dots> = replicate z 0"
  proof -
    have "\<forall>y\<in>set (take z (takeWhile (\<lambda>v. v = 0) xs)). y = 0"
      by (auto dest: in_set_takeD set_takeWhileD)
    then have "replicate (length (take z (takeWhile (\<lambda>v. v = 0) xs))) 0
                 = take z (takeWhile (\<lambda>v. v = 0) xs)"
      by (rule replicate_length_same)
    moreover have "length (take z (takeWhile (\<lambda>v. v = 0) xs)) = z" using zk by simp
    ultimately show ?thesis by simp
  qed
  finally show ?thesis unfolding zint by simp
qed

lemma py_slice_range:
  "\<forall>v\<in>set xs. 0 \<le> v \<and> v \<le> (255::int) \<Longrightarrow> \<forall>v\<in>set (py_slice xs a b). 0 \<le> v \<and> v \<le> 255"
  using py_slice_set [of xs a b] by blast

lemma make_frame_body_ok:
  assumes len: "length (frame self) = 512"
    and rng: "\<forall>v\<in>set (frame self). 0 \<le> v \<and> v \<le> 255"
    and h: "healthy dev (length (written dev))"
    and cnt: "0 \<le> cnt" "cnt < 511"
  shows "\<exists>p cnt'. make_frame_body self dev cnt
                   = Inr (dev\<lparr>written := written dev @ [(1, p)]\<rparr>, cnt', Continue)
           \<and> cnt < cnt' \<and> cnt' \<le> 512 \<and> (cnt' = 512 \<longleftrightarrow> cnt = 505) \<and> length p = 8
           \<and> channels_of_packet p = py_slice (frame self) cnt cnt'
           \<and> (hd p = 2 \<longrightarrow> p = 2 # map word_of_int (py_slice (frame self) cnt (cnt + 7)))"
proof -
  define zeros where "zeros = zeros_after_packet (frame self) cnt"
  have z0: "0 \<le> zeros" unfolding zeros_def by (rule zeros_after_packet_nonneg)
  have z254: "zeros \<le> 254" unfolding zeros_def by (rule zeros_le_254)
  have ztail: "cnt \<le> 505 \<Longrightarrow> cnt + zeros \<le> 505"
    unfolding zeros_def using cnt len by (intro zeros_le_tail) simp_all
  have run: "cnt \<le> 505 \<Longrightarrow> py_slice (frame self) cnt (cnt + zeros) = replicate (nat zeros) 0"
    unfolding zeros_def using cnt len by (intro zeros_prefix) simp_all
  note sl = py_slice_range [OF rng]
  consider (start) "cnt = 0" | (seven) "cnt = 505" | (single) "505 < cnt"
    | (skip) "0 < cnt" "cnt \<le> 504" "0 < zeros" | (data) "0 < cnt" "cnt \<le> 504" "zeros = 0"
    using cnt z0 by linarith
  then show ?thesis
  proof cases
    case start
    define vs where "vs = py_slice (frame self) zeros (zeros + 6)"
    define p :: "byte list" where "p = 4 # word_of_int (zeros + 1) # map word_of_int vs"
    have vs: "\<forall>v\<in>set vs. 0 \<le> v \<and> v \<le> 255" unfolding vs_def by (rule sl)
    have lvs: "length vs = 6" unfolding vs_def using z0 z254 len by (simp add: py_slice_nat)
    have "make_frame_body self dev cnt = Inr (dev\<lparr>written := written dev @ [(1, p)]\<rparr>, 6 + zeros, Continue)"
      unfolding start body_start zeros_def [unfolded start, symmetric] vs_def [symmetric]
      by (simp add: send_start_ok [OF h z0 z254 vs] p_def)
    moreover have "channels_of_packet p = py_slice (frame self) cnt (6 + zeros)"
    proof -
      have "channels_of_packet p = replicate (nat zeros) 0 @ vs"
        unfolding p_def by (rule channels_start [OF z0 z254 vs])
      also have "\<dots> = py_slice (frame self) 0 (0 + zeros) @ py_slice (frame self) zeros (zeros + 6)"
        using run start by (simp add: vs_def)
      also have "\<dots> = py_slice (frame self) 0 (zeros + 6)"
        using z0 z254 len by (simp add: py_slice_append)
      finally show ?thesis using start by (simp add: add.commute)
    qed
    moreover have "length p = 8" by (simp add: p_def lvs)
    moreover have "hd p \<noteq> 2" by (simp add: p_def)
    ultimately show ?thesis using start z0 z254 by (intro exI [of _ p] exI [of _ "6 + zeros"]) simp
  next
    case seven
    define vs where "vs = py_slice (frame self) 505 512"
    define p :: "byte list" where "p = 2 # map word_of_int vs"
    have vs: "\<forall>v\<in>set vs. 0 \<le> v \<and> v \<le> 255" unfolding vs_def by (rule sl)
    have lvs: "length vs = 7" unfolding vs_def using len by (simp add: py_slice_nat)
    have "make_frame_body self dev cnt = Inr (dev\<lparr>written := written dev @ [(1, p)]\<rparr>, 512, Continue)"
      unfolding seven body_seven vs_def [symmetric]
      by (simp add: send_data_ok [OF h vs] p_def)
    moreover have "channels_of_packet p = py_slice (frame self) cnt 512"
      unfolding p_def seven using channels_data [OF vs] by (simp add: vs_def)
    moreover have "length p = 8" by (simp add: p_def lvs)
    moreover have "p = 2 # map word_of_int (py_slice (frame self) cnt (cnt + 7))"
      by (simp add: p_def vs_def seven)
    ultimately show ?thesis using seven by (intro exI [of _ p] exI [of _ 512]) simp
  next
    case single
    define v where "v = frame self ! nat cnt"
    define p :: "byte list" where "p = 3 # word_of_int v # [0, 0, 0, 0, 0, 0]"
    have idx: "py_index (frame self) cnt = Inr v"
      using cnt len by (simp add: py_index_def Let_def v_def)
    have "v \<in> set (frame self)" unfolding v_def using cnt len by (intro nth_mem) simp
    then have v: "0 \<le> v" "v \<le> 255" using rng by auto
    have "make_frame_body self dev cnt = Inr (dev\<lparr>written := written dev @ [(1, p)]\<rparr>, cnt + 1, Continue)"
      unfolding body_single [OF single cnt(2)] idx
      by (simp add: send_single_ok [OF h v] p_def)
    moreover have "channels_of_packet p = py_slice (frame self) cnt (cnt + 1)"
    proof -
      have "py_slice (frame self) cnt (cnt + 1) = take 1 (drop (nat cnt) (frame self))"
        using cnt len by (simp add: py_slice_nat)
      also have "\<dots> = [v]"
        using cnt len by (simp add: v_def take_Suc_conv_app_nth [of 0, simplified] hd_drop_conv_nth take_Suc)
      finally show ?thesis using channels_single [OF v] by (simp add: p_def)
    qed
    moreover have "length p = 8" by (simp add: p_def)
    moreover have "hd p \<noteq> 2" by (simp add: p_def)
    ultimately show ?thesis using single cnt by (intro exI [of _ p] exI [of _ "cnt + 1"]) simp
  next
    case skip
    define vs where "vs = py_slice (frame self) (cnt + zeros) (cnt + zeros + 6)"
    define p :: "byte list" where "p = 5 # word_of_int zeros # map word_of_int vs"
    have vs: "\<forall>v\<in>set vs. 0 \<le> v \<and> v \<le> 255" unfolding vs_def by (rule sl)
    have zt: "cnt + zeros \<le> 505" using skip ztail by simp
    have lvs: "length vs = 6" unfolding vs_def using skip zt len by (simp add: py_slice_nat)
    have z255: "zeros \<le> 255" using z254 by simp
    have b: "make_frame_body self dev cnt =
       (case send_data_skip dev zeros vs of
          Inl e \<Rightarrow> Inl e | Inr dev' \<Rightarrow> Inr (dev', cnt + zeros + 6, Continue))"
      unfolding zeros_def vs_def using skip by (intro body_skip) (simp_all add: zeros_def)
    have "make_frame_body self dev cnt
            = Inr (dev\<lparr>written := written dev @ [(1, p)]\<rparr>, cnt + zeros + 6, Continue)"
      unfolding b by (simp add: send_data_skip_ok [OF h z0 z255 vs] p_def)
    moreover have "channels_of_packet p = py_slice (frame self) cnt (cnt + zeros + 6)"
    proof -
      have "channels_of_packet p = replicate (nat zeros) 0 @ vs"
        unfolding p_def by (rule channels_skip [OF z0 z255 vs])
      also have "\<dots> = py_slice (frame self) cnt (cnt + zeros)
                        @ py_slice (frame self) (cnt + zeros) (cnt + zeros + 6)"
        using run skip by (simp add: vs_def)
      also have "\<dots> = py_slice (frame self) cnt (cnt + zeros + 6)"
        using z0 zt cnt len by (intro py_slice_append) simp_all
      finally show ?thesis .
    qed
    moreover have "length p = 8" by (simp add: p_def lvs)
    moreover have "hd p \<noteq> 2" by (simp add: p_def)
    ultimately show ?thesis using skip zt
      by (intro exI [of _ p] exI [of _ "cnt + zeros + 6"]) simp
  next
    case data
    define vs where "vs = py_slice (frame self) cnt (cnt + 7)"
    define p :: "byte list" where "p = 2 # map word_of_int vs"
    have vs: "\<forall>v\<in>set vs. 0 \<le> v \<and> v \<le> 255" unfolding vs_def by (rule sl)
    have lvs: "length vs = 7" unfolding vs_def using data len by (simp add: py_slice_nat)
    have b: "make_frame_body self dev cnt =
       (case send_data dev vs of
          Inl e \<Rightarrow> Inl e | Inr dev' \<Rightarrow> Inr (dev', cnt + 7, Continue))"
      unfolding vs_def using data by (intro body_data) (simp_all add: zeros_def)
    have "make_frame_body self dev cnt
            = Inr (dev\<lparr>written := written dev @ [(1, p)]\<rparr>, cnt + 7, Continue)"
      unfolding b by (simp add: send_data_ok [OF h vs] p_def)
    moreover have "channels_of_packet p = py_slice (frame self) cnt (cnt + 7)"
      unfolding p_def using channels_data [OF vs] by (simp add: vs_def)
    moreover have "length p = 8" by (simp add: p_def lvs)
    moreover have "p = 2 # map word_of_int (py_slice (frame self) cnt (cnt + 7))"
      by (simp add: p_def vs_def)
    ultimately show ?thesis using data by (intro exI [of _ p] exI [of _ "cnt + 7"]) simp
  qed
qed

lemma healthy_after_write:
  "healthy (dev\<lparr>written := w\<rparr>) = healthy dev"
  by simp

lemma make_frame_loop_ok:
  assumes len: "length (frame self) = 512"
    and rng: "\<forall>v\<in>set (frame self). 0 \<le> v \<and> v \<le> 255"
    and h: "\<forall>k. healthy dev k"
    and cnt: "0 \<le> cnt" "cnt \<le> 511"
  shows "\<exists>ps c. make_frame_loop self dev cnt
                  = (self, dev\<lparr>written := written dev @ map (Pair 1) ps\<rparr>, Inr c)
           \<and> 511 \<le> c \<and> c \<le> 512
           \<and> list_all (\<lambda>p. length p = 8) ps
           \<and> concat (map channels_of_packet ps) = py_slice (frame self) cnt c
           \<and> (\<forall>k<length ps. hd (ps ! k) = 2 \<longrightarrow>
                 ps ! k = 2 # map word_of_int
                    (py_slice (frame self) (packet_offset cnt ps k) (packet_offset cnt ps k + 7)))
           \<and> (c = 512 \<longleftrightarrow> (\<exists>k<length ps. packet_offset cnt ps k = 505))"
  using h cnt
proof (induction "nat (511 - cnt)" arbitrary: cnt dev rule: less_induct)
  case less
  show ?case
  proof (cases "cnt < 511")
    case False
    with less.prems have c: "cnt = 511" by simp
    have "make_frame_loop self dev cnt = (self, dev\<lparr>written := written dev @ map (Pair 1) []\<rparr>, Inr 511)"
      using c by (simp add: make_frame_loop_stop)
    moreover have "concat (map channels_of_packet []) = py_slice (frame self) cnt 511"
      using c len by (simp add: py_slice_nat)
    ultimately show ?thesis
      by (intro exI [of _ "[]"] exI [of _ 511]) simp
  next
    case True
    have hd: "healthy dev (length (written dev))" using less.prems(1) by simp
    from make_frame_body_ok [OF len rng hd less.prems(2) True]
    obtain p cnt' where body: "make_frame_body self dev cnt
                   = Inr (dev\<lparr>written := written dev @ [(1, p)]\<rparr>, cnt', Continue)"
      and adv: "cnt < cnt'" and le: "cnt' \<le> 512" and last: "cnt' = 512 \<longleftrightarrow> cnt = 505"
      and p8: "length p = 8"
      and chp: "channels_of_packet p = py_slice (frame self) cnt cnt'"
      and dat: "hd p = 2 \<longrightarrow> p = 2 # map word_of_int (py_slice (frame self) cnt (cnt + 7))"
      by blast
    define dev' where "dev' = dev\<lparr>written := written dev @ [(1, p)]\<rparr>"
    have step: "make_frame_loop self dev cnt = make_frame_loop self dev' cnt'"
      using True body by (simp add: make_frame_loop_step dev'_def)
    have lenp: "int (length (channels_of_packet p)) = cnt' - cnt"
      using chp adv le less.prems(2) len by (simp add: py_slice_nat)
    have off0: "packet_offset cnt (p # qs) 0 = cnt" for qs by (rule packet_offset_0)
    have offS: "packet_offset cnt (p # qs) (Suc k) = packet_offset cnt' qs k" for qs k
      using lenp by (simp add: packet_offset_Suc)
    show ?thesis
    proof (cases "cnt' = 512")
      case True
      then have c505: "cnt = 505" using last by simp
      have "make_frame_loop self dev cnt = (self, dev\<lparr>written := written dev @ map (Pair 1) [p]\<rparr>, Inr 512)"
        using step True by (simp add: make_frame_loop_stop dev'_def)
      moreover have "concat (map channels_of_packet [p]) = py_slice (frame self) cnt 512"
        using chp True by simp
      moreover have "\<forall>k<length [p]. hd ([p] ! k) = 2 \<longrightarrow>
                 [p] ! k = 2 # map word_of_int
                    (py_slice (frame self) (packet_offset cnt [p] k) (packet_offset cnt [p] k + 7))"
        using dat by (simp add: packet_offset_0)
      moreover have "\<exists>k<length [p]. packet_offset cnt [p] k = 505"
        using c505 by (simp add: packet_offset_0)
      ultimately show ?thesis using p8
        by (intro exI [of _ "[p]"] exI [of _ 512]) simp
    next
      case False
      with le have le': "cnt' \<le> 511" by simp
      have n505: "cnt \<noteq> 505" using False last by simp
      have h': "\<forall>k. healthy dev' k" using less.prems(1) by (simp add: dev'_def)
      have "nat (511 - cnt') < nat (511 - cnt)" using adv le' by simp
      from less.hyps [OF this h' _ le'] adv less.prems(2)
      obtain ps c where rest: "make_frame_loop self dev' cnt'
                  = (self, dev'\<lparr>written := written dev' @ map (Pair 1) ps\<rparr>, Inr c)"
        and c: "511 \<le> c" "c \<le> 512"
        and all8: "list_all (\<lambda>p. length p = 8) ps"
        and chs: "concat (map channels_of_packet ps) = py_slice (frame self) cnt' c"
        and dats: "\<forall>k<length ps. hd (ps ! k) = 2 \<longrightarrow>
                 ps ! k = 2 # map word_of_int
                    (py_slice (frame self) (packet_offset cnt' ps k) (packet_offset cnt' ps k + 7))"
        and fin: "c = 512 \<longleftrightarrow> (\<exists>k<length ps. packet_offset cnt' ps k = 505)"
        by auto
      have r1: "make_frame_loop self dev cnt
                  = (self, dev\<lparr>written := written dev @ map (Pair 1) (p # ps)\<rparr>, Inr c)"
        unfolding step rest by (simp add: dev'_def)
      have r2: "concat (map channels_of_packet (p # ps)) = py_slice (frame self) cnt c"
      proof -
        have "py_slice (frame self) cnt cnt' @ py_slice (frame self) cnt' c
                = py_slice (frame self) cnt c"
          using less.prems(2) adv le' c len by (intro py_slice_append) simp_all
        then show ?thesis using chp chs by simp
      qed
      have r3: "\<forall>k<length (p # ps). hd ((p # ps) ! k) = 2 \<longrightarrow>
                 (p # ps) ! k = 2 # map word_of_int
                    (py_slice (frame self) (packet_offset cnt (p # ps) k)
                       (packet_offset cnt (p # ps) k + 7))"
      proof (intro allI impI)
        fix k assume k: "k < length (p # ps)" and two: "hd ((p # ps) ! k) = 2"
        show "(p # ps) ! k = 2 # map word_of_int
                    (py_slice (frame self) (packet_offset cnt (p # ps) k)
                       (packet_offset cnt (p # ps) k + 7))"
        proof (cases k)
          case 0
          with two dat show ?thesis by (simp add: packet_offset_0)
        next
          case (Suc j)
          with k two dats show ?thesis by (simp add: offS)
        qed
      qed
      have r4: "c = 512 \<longleftrightarrow> (\<exists>k<length (p # ps). packet_offset cnt (p # ps) k = 505)"
      proof
        assume "c = 512"
        with fin obtain j where "j < length ps" "packet_offset cnt' ps j = 505" by blast
        then have "Suc j < length (p # ps) \<and> packet_offset cnt (p # ps) (Suc j) = 505"
          by (simp add: offS)
        then show "\<exists>k<length (p # ps). packet_offset cnt (p # ps) k = 505" by blast
      next
        assume "\<exists>k<length (p # ps). packet_offset cnt (p # ps) k = 505"
        then obtain k where k: "k < length (p # ps)" "packet_offset cnt (p # ps) k = 505" by blast
        show "c = 512"
        proof (cases k)
          case 0
          with k n505 show ?thesis by (simp add: packet_offset_0)
        next
          case (Suc j)
          with k have "j < length ps" "packet_offset cnt' ps j = 505" by (simp_all add: offS)
          with fin show ?thesis by blast
        qed
      qed
      have r0: "list_all (\<lambda>p. length p = 8) (p # ps)" using p8 all8 by simp
      from r0 r1 r2 r3 r4 c show ?thesis
        by (intro exI [of _ "p # ps"] exI [of _ c]) blast
    qed
  qed
qed

lemma tail_controller_range: "\<forall>v\<in>set (frame tail_controller). 0 \<le> v \<and> v \<le> 255"
  by (auto simp: tail_controller_def)

lemma data_controller_range: "\<forall>v\<in>set (frame data_controller). 0 \<le> v \<and> v \<le> 255"
  by (auto simp: data_controller_def)

lemma idle_device_healthy: "\<forall>k. healthy idle_device k"
  by (simp add: idle_device_def)

lemma map_snd_Pair: "map snd (map (Pair a) ps) = ps"
  by (induction ps) simp_all

section \<open>make\_frame: the channels a frame's packets stand for\<close>

text \<open>
  C1, as stated, has \<^verbatim>\<open>make_frame\<close> never send channel 512 and the packets always stand for
  511 channels. On the frame of \<open>tail_controller\<close> the cursor lands on 505, where
  \<^verbatim>\<open>(512 - cnt) == 7\<close> sends \<^verbatim>\<open>frame[505:512]\<close>: the last packet carries the 9 of channel 512,
  the loop ends at cursor 512 and the three packets stand for 512 channels.
\<close>

theorem make_frame_sends_channel_512:
  "frame tail_controller ! 511 = 9
   \<and> snd (snd (make_frame tail_controller idle_device)) = Inr 512
   \<and> map snd (written (fst (snd (make_frame tail_controller idle_device))))
       = [[4, 255, 0, 0, 0, 0, 0, 0], [5, 239, 1, 0, 0, 0, 0, 0], [2, 0, 0, 0, 0, 0, 0, 9]]
   \<and> length (concat (map channels_of_packet
        [[4, 255, 0, 0, 0, 0, 0, 0], [5, 239, 1, 0, 0, 0, 0, 0], [2, 0, 0, 0, 0, 0, 0, 9]])) = 512"
proof -
  have "frame tail_controller ! 511 = 9" by code_simp
  moreover have "length (concat (map channels_of_packet
        [[4, 255, 0, 0, 0, 0, 0, 0], [5, 239, 1, 0, 0, 0, 0, 0], [2, 0, 0, 0, 0, 0, 0, 9]])) = 512"
    by code_simp
  ultimately show ?thesis using tail_cursor tail_packets by simp
qed

text \<open>
  C1, amended. For a 512-channel frame with every value in 0 to 255, on a device that accepts
  every write, \<^verbatim>\<open>make_frame\<close> ends without an exception at cursor 511 or 512. The packets it
  wrote stand, in order, for exactly the first \<open>c\<close> channels of the frame, \<open>c\<close> the final
  cursor, so their number of channels (values sent plus zeros skipped) is the final cursor.
  The cursor ends at 512, and channel 512 is sent, exactly when some packet starts at
  channel offset 505; otherwise it ends at 511 and channel 512 is not sent.
\<close>

theorem make_frame_channels_represented:
  assumes "length (frame self) = 512"
    and "\<forall>v\<in>set (frame self). 0 \<le> v \<and> v \<le> 255"
    and "\<forall>k. healthy dev k"
  shows "\<exists>ps c. make_frame self dev
                  = (self, dev\<lparr>written := written dev @ map (Pair 1) ps\<rparr>, Inr c)
           \<and> (c = 511 \<or> c = 512)
           \<and> concat (map channels_of_packet ps) = take (nat c) (frame self)
           \<and> length (concat (map channels_of_packet ps)) = nat c
           \<and> (c = 512 \<longleftrightarrow> (\<exists>k<length ps. packet_offset 0 ps k = 505))"
proof -
  from make_frame_loop_ok [OF assms, of 0]
  obtain ps c where run: "make_frame self dev
                  = (self, dev\<lparr>written := written dev @ map (Pair 1) ps\<rparr>, Inr c)"
    and c: "511 \<le> c" "c \<le> 512"
    and chs: "concat (map channels_of_packet ps) = py_slice (frame self) 0 c"
    and fin: "c = 512 \<longleftrightarrow> (\<exists>k<length ps. packet_offset 0 ps k = 505)"
    unfolding make_frame_def by auto
  have sl: "py_slice (frame self) 0 c = take (nat c) (frame self)"
    using c assms(1) by (simp add: py_slice_nat)
  have cc: "c = 511 \<or> c = 512" using c by linarith
  have chs': "concat (map channels_of_packet ps) = take (nat c) (frame self)"
    using chs sl by simp
  have "length (take (nat c) (frame self)) = nat c" using c assms(1) by simp
  then have ln: "length (concat (map channels_of_packet ps)) = nat c" using chs' by simp
  from run cc chs' ln fin show ?thesis by blast
qed

theorem make_frame_channels_represented_witness:
  "length (frame tail_controller) = 512
   \<and> snd (snd (make_frame tail_controller idle_device)) = Inr 512
   \<and> concat (map channels_of_packet
        [[4, 255, 0, 0, 0, 0, 0, 0], [5, 239, 1, 0, 0, 0, 0, 0], [2, 0, 0, 0, 0, 0, 0, 9]])
       = take 512 (frame tail_controller)"
proof -
  from make_frame_channels_represented
         [OF tail_controller_length tail_controller_range idle_device_healthy]
  obtain ps c where run: "make_frame tail_controller idle_device
                  = (tail_controller,
                     idle_device\<lparr>written := written idle_device @ map (Pair 1) ps\<rparr>, Inr c)"
    and chs: "concat (map channels_of_packet ps) = take (nat c) (frame tail_controller)"
    by blast
  from run tail_cursor have c: "c = 512" by simp
  from run tail_packets
  have ps: "ps = [[4, 255, 0, 0, 0, 0, 0, 0], [5, 239, 1, 0, 0, 0, 0, 0], [2, 0, 0, 0, 0, 0, 0, 9]]"
    by (simp add: idle_device_def map_snd_Pair comp_def)
  from chs c ps tail_cursor tail_controller_length show ?thesis by simp
qed

text \<open>
  C2, as stated, gives every data packet exactly 6 channel values after its type byte. The
  second packet of the frame of \<open>data_controller\<close> is a data packet with 7 values, those of
  channels 7 to 13.
\<close>

theorem make_frame_data_packet_has_7_values:
  "map snd (written (fst (snd (make_frame data_controller idle_device)))) ! 1
     = [2, 11, 12, 13, 14, 15, 16, 17]
   \<and> length (tl (map snd (written (fst (snd (make_frame data_controller idle_device)))) ! 1)) = 7"
  by (simp add: data_packets)

text \<open>
  C2, amended. For a 512-channel frame with every value in 0 to 255, on a device that accepts
  every write, every data packet (type 2) that \<^verbatim>\<open>make_frame\<close> writes carries exactly 7 channel
  values after its type byte: the values of the 7 consecutive channels that start at the
  packet's channel offset, with no gap.
\<close>

theorem make_frame_data_packet_values:
  assumes "length (frame self) = 512"
    and "\<forall>v\<in>set (frame self). 0 \<le> v \<and> v \<le> 255"
    and "\<forall>k. healthy dev k"
  shows "\<exists>ps. written (fst (snd (make_frame self dev))) = written dev @ map (Pair 1) ps
           \<and> (\<forall>k<length ps. hd (ps ! k) = 2 \<longrightarrow>
                 length (tl (ps ! k)) = 7
                 \<and> tl (ps ! k) = map word_of_int
                      (py_slice (frame self) (packet_offset 0 ps k) (packet_offset 0 ps k + 7)))"
proof -
  from make_frame_loop_ok [OF assms, of 0]
  obtain ps c where run: "make_frame self dev
                  = (self, dev\<lparr>written := written dev @ map (Pair 1) ps\<rparr>, Inr c)"
    and all8: "list_all (\<lambda>p. length p = 8) ps"
    and dats: "\<forall>k<length ps. hd (ps ! k) = 2 \<longrightarrow>
                 ps ! k = 2 # map word_of_int
                    (py_slice (frame self) (packet_offset 0 ps k) (packet_offset 0 ps k + 7))"
    unfolding make_frame_def by auto
  have "length (tl (ps ! k)) = 7
        \<and> tl (ps ! k) = map word_of_int
             (py_slice (frame self) (packet_offset 0 ps k) (packet_offset 0 ps k + 7))"
    if k: "k < length ps" and two: "hd (ps ! k) = 2" for k
  proof -
    have "length (ps ! k) = 8" using all8 k by (simp add: list_all_length)
    then have "length (tl (ps ! k)) = 7" by simp
    moreover have "tl (ps ! k) = map word_of_int
             (py_slice (frame self) (packet_offset 0 ps k) (packet_offset 0 ps k + 7))"
      using dats k two by (metis list.sel(3))
    ultimately show ?thesis by simp
  qed
  then have every: "\<forall>k<length ps. hd (ps ! k) = 2 \<longrightarrow>
                 length (tl (ps ! k)) = 7
                 \<and> tl (ps ! k) = map word_of_int
                      (py_slice (frame self) (packet_offset 0 ps k) (packet_offset 0 ps k + 7))"
    by blast
  have w: "written (fst (snd (make_frame self dev))) = written dev @ map (Pair 1) ps"
    using run by simp
  from w every show ?thesis by blast
qed

theorem make_frame_data_packet_values_witness:
  "length (frame data_controller) = 512
   \<and> packet_offset 0 [[4, 1, 1, 0, 0, 0, 0, 0], [2, 11, 12, 13, 14, 15, 16, 17],
                        [5, 254, 0, 0, 0, 0, 0, 0], [5, 232, 0, 0, 0, 0, 0, 0]] 1 = 6
   \<and> ([11, 12, 13, 14, 15, 16, 17] :: byte list)
       = map word_of_int (py_slice (frame data_controller) 6 13)"
proof -
  define qs :: "byte list list" where
    "qs = [[4, 1, 1, 0, 0, 0, 0, 0], [2, 11, 12, 13, 14, 15, 16, 17],
           [5, 254, 0, 0, 0, 0, 0, 0], [5, 232, 0, 0, 0, 0, 0, 0]]"
  have off: "packet_offset 0 qs 1 = 6" unfolding qs_def by code_simp
  from make_frame_data_packet_values
         [OF data_controller_length data_controller_range idle_device_healthy]
  obtain ps where w: "written (fst (snd (make_frame data_controller idle_device)))
                        = written idle_device @ map (Pair 1) ps"
    and dats: "\<forall>k<length ps. hd (ps ! k) = 2 \<longrightarrow>
                 length (tl (ps ! k)) = 7
                 \<and> tl (ps ! k) = map word_of_int
                      (py_slice (frame data_controller) (packet_offset 0 ps k)
                         (packet_offset 0 ps k + 7))"
    by blast
  from w data_packets have ps: "ps = qs"
    by (simp add: idle_device_def map_snd_Pair comp_def qs_def)
  have "1 < length qs" and "hd (qs ! 1) = 2" and "tl (qs ! 1) = [11, 12, 13, 14, 15, 16, 17]"
    by (simp_all add: qs_def)
  then have "tl (qs ! 1) = map word_of_int
                 (py_slice (frame data_controller) (packet_offset 0 qs 1) (packet_offset 0 qs 1 + 7))"
    using dats [unfolded ps] by blast
  then have "tl (qs ! 1) = map word_of_int (py_slice (frame data_controller) 6 13)"
    unfolding off by simp
  then have "([11, 12, 13, 14, 15, 16, 17] :: byte list)
               = map word_of_int (py_slice (frame data_controller) 6 13)"
    by (simp add: qs_def)
  with off data_controller_length show ?thesis by (simp add: qs_def)
qed

end
